theory Spec2Isabelle
  imports Main "HOL-Library.Word"
begin

section \<open>Shared values: errors, metrics, the accumulator\<close>

text \<open>
  A Go \<open>error\<close> value is its message; \<open>fmt.Errorf\<close> is string concatenation, with
  \<open>%s\<close> and \<open>%v\<close> of an error printing that message.
\<close>

datatype error = Error (msg: string)

text \<open>
  The dynamic values an \<open>interface{}\<close> holds after \<open>database/sql\<close> has scanned a
  column into it; \<open>VNil\<close> is the nil interface a fresh \<open>new(interface{})\<close> points to.
  A \<open>float64\<close> is kept as its 64 bits.
\<close>

datatype val =
    VNil
  | VInt "64 word"
  | VFloat "64 word"
  | VBool bool
  | VBytes "8 word list"
  | VString string
  | VTime int

text \<open>
  Modelled from the spec: \<open>telegraf.Metric\<close> and its \<open>AddTag\<close> are declared outside
  the files at hand. The spec's Record is \<open>{measurementName, tags: string \<rightarrow> string
  with unique keys, fields: string \<rightarrow> value with unique keys, timestamp}\<close>;
  \<open>AddTag\<close> sets one key of the tag mapping.
\<close>

record metric =
  mname :: string
  mtags :: "string \<rightharpoonup> string"
  mfields :: "string \<rightharpoonup> val"
  mtime :: int


text \<open>
  The \<open>telegraf.Accumulator\<close> is the sink. It is modelled by the sequence of calls
  made on it: \<open>AddError\<close>, \<open>AddMetric\<close> and
  \<open>AddFields(measurement, fields, tags, t)\<close>. \<open>AddError(nil)\<close> records nothing.
\<close>

datatype acc_event =
    AddError error
  | AddMetric metric
  | AddFields string "string \<rightharpoonup> val" "string \<rightharpoonup> string" int

type_synonym accumulator = "acc_event list"

section \<open>The tail plugin\<close>

subsection \<open>strings.TrimRight\<close>



subsection \<open>Lines, parsers and parseLine\<close>


text \<open>
  A \<open>parsers.Parser\<close> is an interface value: \<open>is_csv\<close> says whether its dynamic type
  is \<open>*csv.Parser\<close> (the case of the type switch), and its two entry points
  \<open>Parse\<close> and \<open>ParseLine\<close> read and update the parser's own state \<open>pstate\<close>
  (the csv parser keeps the header it has read). Each returns an error or its result;
  \<open>ParseLine\<close> may return a nil metric.
\<close>

record 'ps parser =
  is_csv :: bool
  pstate :: 'ps
  Parse :: "'ps \<Rightarrow> string \<Rightarrow> (error + metric list) \<times> 'ps"
  ParseLine :: "'ps \<Rightarrow> string \<Rightarrow> (error + metric option) \<times> 'ps"


subsection \<open>The follower library: tail.Config, tail.Tail, tail.TailFile\<close>

record SeekInfo =
  Offset :: int
  Whence :: int

text \<open>
  \<open>tail.Config\<close> as the plugin fills it (the logger is a constant and left out).
  \<open>Location = None\<close> is the nil \<open>*SeekInfo\<close>: the follower does not seek and reads
  the file from its first byte; \<open>Whence = 2, Offset = 0\<close> seeks to the end of the file.
\<close>

record Config =
  ReOpen :: bool
  Follow :: bool
  Location :: "SeekInfo option"
  MustExist :: bool
  Poll :: bool
  Config_Pipe :: bool

text \<open>The fields of \<open>tail.Tail\<close> the plugin reads: the file name and the configuration.\<close>

record tailer =
  Filename :: string
  tconfig :: Config

text \<open>
  What the plugin calls outside itself during a discovery pass.
  \<^item> \<open>Compile\<close> is \<open>globpath.Compile\<close>, returning the Go pair \<open>(*GlobPath, error)\<close>;
    \<open>None\<close> in the first component is the nil pointer.
  \<^item> \<open>Match\<close> is the method call \<open>g.Match()\<close> on that pointer, nil or not: the paths
    matching now, or \<open>None\<close> when the call panics.
  \<^item> \<open>TailFile_err\<close> is the error, if any, of \<open>tail.TailFile(file, config)\<close>.
\<close>

record 'g env =
  Compile :: "string \<Rightarrow> 'g option \<times> error option"
  Match :: "'g option \<Rightarrow> string list option"
  TailFile_err :: "string \<Rightarrow> Config \<Rightarrow> error option"

text \<open>
  \<open>tail.TailFile\<close> returns the error, or a follower whose \<open>Filename\<close> and
  \<open>Config\<close> are the arguments given.
\<close>

definition TailFile :: "'g env \<Rightarrow> string \<Rightarrow> Config \<Rightarrow> error + tailer" where
  "TailFile env file cfg =
     (case TailFile_err env file cfg of
        Some e \<Rightarrow> Inl e
      | None \<Rightarrow> Inr \<lparr>Filename = file, tconfig = cfg\<rparr>)"

subsection \<open>The plugin's state\<close>

text \<open>
  The struct \<open>Tail\<close>. The wait group and the goroutines it counts are the list
  \<open>tasks\<close>: one entry, the arguments of \<open>receiver\<close>, for each \<open>wg.Add(1); go ...\<close>.
  \<open>acc\<close> holds the calls made so far on the accumulator given to \<open>Start\<close>.
  The model covers an instance whose \<open>parserFunc\<close> is set and, for \<open>Gather\<close>, on
  which \<open>Start\<close> has run (telegraf calls them in this order), so \<open>tailers\<close> and
  \<open>acc\<close> are not nil.
\<close>

record 'ps Tail =
  Files :: "string list"
  FromBeginning :: bool
  Pipe :: bool
  WatchMethod :: string
  tailers :: "string \<rightharpoonup> tailer"
  parserFunc :: "unit \<Rightarrow> 'ps parser option \<times> error option"
  tasks :: "('ps parser option \<times> tailer) list"
  acc :: accumulator

text \<open>A call either panics or returns; both carry the state reached.\<close>

datatype ('s, 'r) outcome = Panics (reached: 's) | Returns (reached: 's) (result: 'r)

subsection \<open>tailNewFiles, Start, Gather\<close>

text \<open>The inner loop of \<open>tailNewFiles\<close>, over the files one pattern matches.\<close>

fun tail_files :: "'g env \<Rightarrow> SeekInfo option \<Rightarrow> bool \<Rightarrow> 'ps Tail \<Rightarrow> string list \<Rightarrow> 'ps Tail" where
  "tail_files env seek poll t [] = t"
| "tail_files env seek poll t (file # files) =
     (if tailers t file \<noteq> None then tail_files env seek poll t files
      else
        case TailFile env file
               \<lparr>ReOpen = True, Follow = True, Location = seek, MustExist = True,
                Poll = poll, Config_Pipe = Pipe t\<rparr> of
          Inl err \<Rightarrow> tail_files env seek poll (t\<lparr>acc := acc t @ [AddError err]\<rparr>) files
        | Inr tailer \<Rightarrow>
            (case parserFunc t () of
               (parser, perr) \<Rightarrow>
                 tail_files env seek poll
                   ((case perr of
                       Some e \<Rightarrow> t\<lparr>acc := acc t @ [AddError (Error (''error creating parser: '' @ msg e))]\<rparr>
                     | None \<Rightarrow> t)
                    \<lparr>tasks := tasks t @ [(parser, tailer)],
                     tailers := (tailers t)(Filename tailer \<mapsto> tailer)\<rparr>)
                   files))"

text \<open>The outer loop, over the configured patterns.\<close>

fun tail_patterns ::
  "'g env \<Rightarrow> SeekInfo option \<Rightarrow> bool \<Rightarrow> 'ps Tail \<Rightarrow> string list \<Rightarrow> ('ps Tail, error option) outcome" where
  "tail_patterns env seek poll t [] = Returns t None"
| "tail_patterns env seek poll t (filepath # rest) =
     (case Compile env filepath of
        (g, err) \<Rightarrow>
          (case Match env g of
             None \<Rightarrow>
               Panics (case err of
                         Some e \<Rightarrow> t\<lparr>acc := acc t @ [AddError (Error (''E! Error Glob '' @ filepath @ '' failed to compile, '' @ msg e))]\<rparr>
                       | None \<Rightarrow> t)
           | Some files \<Rightarrow>
               tail_patterns env seek poll
                 (tail_files env seek poll
                    (case err of
                       Some e \<Rightarrow> t\<lparr>acc := acc t @ [AddError (Error (''E! Error Glob '' @ filepath @ '' failed to compile, '' @ msg e))]\<rparr>
                     | None \<Rightarrow> t)
                    files)
                 rest))"

definition tailNewFiles :: "'g env \<Rightarrow> bool \<Rightarrow> 'ps Tail \<Rightarrow> ('ps Tail, error option) outcome" where
  "tailNewFiles env fromBeginning t =
     tail_patterns env
       (if \<not> Pipe t \<and> \<not> fromBeginning then Some \<lparr>Offset = 0, Whence = 2\<rparr> else None)
       (WatchMethod t = ''poll'')
       t (Files t)"

text \<open>\<open>Gather\<close> does not use its accumulator argument; it reports to \<open>t.acc\<close>.\<close>

definition Gather :: "'g env \<Rightarrow> accumulator \<Rightarrow> 'ps Tail \<Rightarrow> ('ps Tail, error option) outcome" where
  "Gather env a t = tailNewFiles env True t"

definition Start :: "'g env \<Rightarrow> accumulator \<Rightarrow> 'ps Tail \<Rightarrow> ('ps Tail, error option) outcome" where
  "Start env a t = tailNewFiles env (FromBeginning t) (t\<lparr>acc := a, tailers := Map.empty\<rparr>)"

text \<open>
  A sequence of \<open>Start\<close> and \<open>Gather\<close> calls, each made in the filesystem of its
  moment; a panic ends the sequence.
\<close>

datatype call = CallStart | CallGather

fun calls :: "('g env \<times> call) list \<Rightarrow> 'ps Tail \<Rightarrow> ('ps Tail, error option) outcome" where
  "calls [] t = Returns t None"
| "calls ((env, c) # cs) t =
     (case (case c of CallStart \<Rightarrow> Start env (acc t) t | CallGather \<Rightarrow> Gather env (acc t) t) of
        Panics t' \<Rightarrow> Panics t'
      | Returns t' r \<Rightarrow> calls cs t')"

subsection \<open>receiver\<close>






section \<open>The SQL Server plugin: accRow\<close>

record Query =
  Script :: string
  ResultByRow :: bool
  OrderedColumns :: "string list"

text \<open>
  The \<open>scanner\<close> passed to \<open>accRow\<close>: \<open>row.Scan(dest...)\<close> fails, or stores one
  value through each of the destinations it is given, in order. It is modelled by the
  function from the number of destinations to the error or the values stored.
\<close>

type_synonym scanner = "nat \<Rightarrow> error + val list"

text \<open>
  \<open>columnMap\<close> maps a column name to a pointer to a fresh \<open>interface{}\<close>; the model
  maps the name to the value the pointer refers to, nil at first.
\<close>

fun new_columns :: "string list \<Rightarrow> (string \<rightharpoonup> val) \<Rightarrow> (string \<rightharpoonup> val)" where
  "new_columns [] columnMap = columnMap"
| "new_columns (column # rest) columnMap = new_columns rest (columnMap(column \<mapsto> VNil))"

text \<open>
  \<open>Scan\<close> stores through \<open>columnVars[i] = columnMap[OrderedColumns[i]]\<close>, for
  \<open>i < len(columnMap)\<close>: two equal column names share one pointer, and the later
  store wins.
\<close>

fun store_columns :: "(string \<times> val) list \<Rightarrow> (string \<rightharpoonup> val) \<Rightarrow> (string \<rightharpoonup> val)" where
  "store_columns [] columnMap = columnMap"
| "store_columns ((column, v) # rest) columnMap = store_columns rest (columnMap(column \<mapsto> v))"

text \<open>The type assertion \<open>(*val).(string)\<close>: the string, when the value is one.\<close>

definition as_string :: "val \<Rightarrow> string option" where
  "as_string v = (case v of VString str \<Rightarrow> Some str | _ \<Rightarrow> None)"

text \<open>
  The first loop \<open>for header, val := range columnMap\<close>, over the entries of the map
  in the order the iteration happens to take.
\<close>

fun tag_loop ::
  "(string \<times> val) list \<Rightarrow> string \<times> (string \<rightharpoonup> string) \<Rightarrow> string \<times> (string \<rightharpoonup> string)" where
  "tag_loop [] (measurement, tgs) = (measurement, tgs)"
| "tag_loop ((header, v) # rest) (measurement, tgs) =
     (case as_string v of
        Some str \<Rightarrow>
          if header = ''measurement'' then tag_loop rest (str, tgs)
          else tag_loop rest (measurement, tgs(header \<mapsto> str))
      | None \<Rightarrow> tag_loop rest (measurement, tgs))"

text \<open>The second loop over \<open>columnMap\<close>, of the branch \<open>!query.ResultByRow\<close>.\<close>

fun field_loop :: "(string \<times> val) list \<Rightarrow> (string \<rightharpoonup> val) \<Rightarrow> (string \<rightharpoonup> val)" where
  "field_loop [] flds = flds"
| "field_loop ((header, v) # rest) flds =
     (case as_string v of
        Some str \<Rightarrow> field_loop rest flds
      | None \<Rightarrow> field_loop rest (flds(header \<mapsto> v)))"

text \<open>The entries of a map, its keys taken in the order \<open>ks\<close>.\<close>

definition entries :: "string list \<Rightarrow> (string \<rightharpoonup> val) \<Rightarrow> (string \<times> val) list" where
  "entries ks columnMap = map (\<lambda>k. (k, the (columnMap k))) (filter (\<lambda>k. columnMap k \<noteq> None) ks)"

text \<open>
  \<open>accRow\<close>. \<open>now\<close> is the value of \<open>time.Now()\<close>. \<open>len(columnMap)\<close> is the number
  of distinct column names. The two loops over the map visit its keys in the orders
  \<open>ks1\<close> and \<open>ks2\<close> (Go leaves the order open; each is an enumeration of the keys).
  With \<open>ResultByRow\<close>, \<open>*columnMap["value"]\<close> dereferences a nil pointer when no
  column is named \<open>value\<close>: a panic.
\<close>

definition accRow ::
  "string list \<Rightarrow> string list \<Rightarrow> Query \<Rightarrow> accumulator \<Rightarrow> scanner \<Rightarrow> int
   \<Rightarrow> (accumulator, error option) outcome" where
  "accRow ks1 ks2 query a row now =
     (let columnMap0 = new_columns (OrderedColumns query) Map.empty;
          n = length (remdups (OrderedColumns query));
          columnVars = take n (OrderedColumns query)
      in case row (length columnVars) of
           Inl err \<Rightarrow> Returns a (Some err)
         | Inr vals \<Rightarrow>
             (let columnMap = store_columns (zip columnVars vals) columnMap0 in
              case tag_loop (entries ks1 columnMap) ([], Map.empty) of
                (measurement, tgs) \<Rightarrow>
                  if ResultByRow query then
                    (case columnMap ''value'' of
                       None \<Rightarrow> Panics a
                     | Some v \<Rightarrow>
                         Returns (a @ [AddFields measurement [''value'' \<mapsto> v] tgs now]) None)
                  else
                    Returns
                      (a @ [AddFields measurement (field_loop (entries ks2 columnMap) Map.empty)
                              tgs now])
                      None))"

section \<open>Predicates and values used in the statements\<close>

text \<open>The configuration \<open>tailNewFiles\<close> gives to every follower it starts.\<close>

abbreviation follower_config :: "SeekInfo option \<Rightarrow> bool \<Rightarrow> bool \<Rightarrow> Config" where
  "follower_config seek poll pipe \<equiv>
     \<lparr>ReOpen = True, Follow = True, Location = seek, MustExist = True,
      Poll = poll, Config_Pipe = pipe\<rparr>"

text \<open>Every entry of the map \<open>tailers\<close> is the follower of the path it is stored under.\<close>

definition keyed :: "'ps Tail \<Rightarrow> bool" where
  "keyed t = (\<forall>p x. tailers t p = Some x \<longrightarrow> Filename x = p)"

text \<open>
  No two consumer tasks follow the same path, and the paths that have a consumer task are
  the keys of \<open>tailers\<close>.
\<close>

definition one_task_per_path :: "'ps Tail \<Rightarrow> bool" where
  "one_task_per_path t =
     (distinct (map (Filename \<circ> snd) (tasks t))
      \<and> set (map (Filename \<circ> snd) (tasks t)) = dom (tailers t))"

text \<open>
  A list of files is settled when each of them is tracked already or cannot be opened;
  a list of patterns is, when each pattern matches a settled list of files.
\<close>

definition settled :: "'g env \<Rightarrow> Config \<Rightarrow> 'ps Tail \<Rightarrow> string list \<Rightarrow> bool" where
  "settled env cfg t fs = (\<forall>f \<in> set fs. tailers t f \<noteq> None \<or> TailFile_err env f cfg \<noteq> None)"

definition all_settled :: "'g env \<Rightarrow> Config \<Rightarrow> 'ps Tail \<Rightarrow> string list \<Rightarrow> bool" where
  "all_settled env cfg t ps =
     (\<forall>p \<in> set ps. \<exists>fs. Match env (fst (Compile env p)) = Some fs \<and> settled env cfg t fs)"

text \<open>
  The classification rule in the spec's words, over the scanned row as a map from column
  name to value: a string value is a tag, except under the key \<open>measurement\<close>, where it
  names the record; a value of any other type is a field.
\<close>

definition spec_measurement :: "(string \<rightharpoonup> val) \<Rightarrow> string" where
  "spec_measurement cm =
     (case Option.bind (cm ''measurement'') as_string of Some s \<Rightarrow> s | None \<Rightarrow> [])"

definition spec_tags :: "(string \<rightharpoonup> val) \<Rightarrow> (string \<rightharpoonup> string)" where
  "spec_tags cm = (\<lambda>h. if h = ''measurement'' then None else Option.bind (cm h) as_string)"

definition spec_fields :: "(string \<rightharpoonup> val) \<Rightarrow> (string \<rightharpoonup> val)" where
  "spec_fields cm =
     (\<lambda>h. case cm h of None \<Rightarrow> None | Some v \<Rightarrow> if as_string v = None then Some v else None)"

subsection \<open>Concrete inputs\<close>

definition metric_named :: "string \<Rightarrow> metric" where
  "metric_named n = \<lparr>mname = n, mtags = Map.empty, mfields = Map.empty, mtime = 0\<rparr>"

text \<open>
  A csv parser without state: \<open>Parse\<close> accepts the header line \<open>h\<close> only and yields
  no metric for it; \<open>ParseLine\<close> turns any line into one metric.
\<close>

definition strict_csv :: "unit parser" where
  "strict_csv =
     \<lparr>is_csv = True, pstate = (),
      Parse = (\<lambda>st txt. (if txt = ''h'' then Inr [] else Inl (Error ''bad header''), st)),
      ParseLine = (\<lambda>st txt. (Inr (Some (metric_named txt)), st))\<rparr>"

text \<open>
  A filesystem with \<open>/var/log/a.log\<close> and an unreadable \<open>/var/log/b.log\<close>. A compiled
  glob is its pattern. The pattern \<open>/var/log/**/[\<close> does not compile: \<open>Compile\<close>
  returns the nil pointer with the error, and \<open>Match\<close> on the nil pointer panics.
\<close>

definition log_env :: "string env" where
  "log_env =
     \<lparr>Compile = (\<lambda>p. if p = ''/var/log/**/['' then (None, Some (Error ''unexpected end of input''))
                     else (Some p, None)),
      Match = (\<lambda>g. case g of
                      None \<Rightarrow> None
                    | Some p \<Rightarrow> if p = ''/var/log/*.log''
                                then Some [''/var/log/a.log'', ''/var/log/b.log'']
                                else Some [p]),
      TailFile_err = (\<lambda>f cfg. if f = ''/var/log/b.log''
                              then Some (Error ''open /var/log/b.log: permission denied'')
                              else None)\<rparr>"

text \<open>The same filesystem before any file exists: no pattern matches.\<close>

definition empty_env :: "string env" where
  "empty_env = log_env\<lparr>Match := (\<lambda>g. case g of None \<Rightarrow> None | Some p \<Rightarrow> Some [])\<rparr>"

definition log_tail :: "unit Tail" where
  "log_tail =
     \<lparr>Files = [''/var/log/*.log'', ''/var/log/a.log''], FromBeginning = False, Pipe = False,
      WatchMethod = ''inotify'', tailers = Map.empty,
      parserFunc = (\<lambda>u. (Some strict_csv, None)), tasks = [], acc = []\<rparr>"

text \<open>The same plugin with a pattern that does not compile in front.\<close>

definition bad_tail :: "unit Tail" where
  "bad_tail = log_tail\<lparr>Files := [''/var/log/**/['', ''/var/log/a.log'']\<rparr>"


text \<open>The one follower the plugin starts in \<open>log_env\<close>, by its \<open>Location\<close>.\<close>

definition a_log :: "SeekInfo option \<Rightarrow> tailer" where
  "a_log seek = \<lparr>Filename = ''/var/log/a.log'', tconfig = follower_config seek False False\<rparr>"

text \<open>A query with three columns, and a row of it.\<close>

definition cpu_query :: Query where
  "cpu_query = \<lparr>Script = ''SELECT ...'', ResultByRow = False,
                OrderedColumns = [''measurement'', ''sql_instance'', ''cpu_count'']\<rparr>"

definition cpu_row :: scanner where
  "cpu_row n = (if n = 3 then Inr [VString ''sqlserver_cpu'', VString ''db1'', VInt 8]
                else Inl (Error ''sql: wrong number of destination arguments in Scan''))"

section \<open>Properties of the tail plugin\<close>

subsection \<open>Stripping carriage returns\<close>









subsection \<open>The first-line flag\<close>







subsection \<open>The path tag\<close>






subsection \<open>A failing parser factory\<close>



subsection \<open>The discovery pass: one turn of each loop\<close>

lemma tail_files_Cons_tracked:
  "tailers t file \<noteq> None \<Longrightarrow> tail_files env seek poll t (file # files) = tail_files env seek poll t files"
  by simp

lemma tail_files_Cons_open_error:
  "tailers t file = None \<Longrightarrow> TailFile_err env file (follower_config seek poll (Pipe t)) = Some e \<Longrightarrow>
   tail_files env seek poll t (file # files) =
     tail_files env seek poll (t\<lparr>acc := acc t @ [AddError e]\<rparr>) files"
  by (simp add: TailFile_def)

lemma tail_files_Cons_new:
  "tailers t file = None \<Longrightarrow> TailFile_err env file (follower_config seek poll (Pipe t)) = None \<Longrightarrow>
   parserFunc t () = (parser, perr) \<Longrightarrow>
   tail_files env seek poll t (file # files) =
     tail_files env seek poll
       (t\<lparr>acc := (case perr of Some e \<Rightarrow> acc t @ [AddError (Error (''error creating parser: '' @ msg e))]
                   | None \<Rightarrow> acc t),
          tasks := tasks t @ [(parser, \<lparr>Filename = file, tconfig = follower_config seek poll (Pipe t)\<rparr>)],
          tailers := (tailers t)(file \<mapsto> \<lparr>Filename = file, tconfig = follower_config seek poll (Pipe t)\<rparr>)\<rparr>)
       files"
  by (cases perr) (simp_all add: TailFile_def)

lemma tail_files_cases [case_names tracked open_error new]:
  assumes "tailers t f \<noteq> None \<Longrightarrow> P"
    and "\<And>e. tailers t f = None \<Longrightarrow> TailFile_err env f (follower_config seek poll (Pipe t)) = Some e \<Longrightarrow> P"
    and "\<And>parser perr. tailers t f = None \<Longrightarrow>
           TailFile_err env f (follower_config seek poll (Pipe t)) = None \<Longrightarrow>
           parserFunc t () = (parser, perr) \<Longrightarrow> P"
  shows P
  using assms by (cases "tailers t f"; cases "TailFile_err env f (follower_config seek poll (Pipe t))";
      cases "parserFunc t ()") auto

lemma tail_files_config:
  "Files (tail_files env seek poll t fs) = Files t
   \<and> FromBeginning (tail_files env seek poll t fs) = FromBeginning t
   \<and> Pipe (tail_files env seek poll t fs) = Pipe t
   \<and> WatchMethod (tail_files env seek poll t fs) = WatchMethod t
   \<and> parserFunc (tail_files env seek poll t fs) = parserFunc t"
proof (induction fs arbitrary: t)
  case Nil
  show ?case by simp
next
  case (Cons f fs)
  show ?case
  proof (cases rule: tail_files_cases [where t=t and f=f and env=env and seek=seek and poll=poll])
    case tracked
    show ?thesis
      unfolding tail_files_Cons_tracked [OF tracked]
      using Cons.IH by simp
  next
    case (open_error e)
    show ?thesis
      unfolding tail_files_Cons_open_error [OF open_error]
      using Cons.IH by simp
  next
    case (new parser perr)
    show ?thesis
      unfolding tail_files_Cons_new [OF new]
      using Cons.IH by simp
  qed
qed


lemma tail_files_invariant:
  assumes init: "P t"
    and acc_step: "\<And>t a. P t \<Longrightarrow> P (t\<lparr>acc := a\<rparr>)"
    and new_step: "\<And>t f parser. P t \<Longrightarrow> tailers t f = None \<Longrightarrow>
        P (t\<lparr>tasks := tasks t @ [(parser, \<lparr>Filename = f, tconfig = follower_config seek poll (Pipe t)\<rparr>)],
             tailers := (tailers t)(f \<mapsto> \<lparr>Filename = f, tconfig = follower_config seek poll (Pipe t)\<rparr>)\<rparr>)"
  shows "P (tail_files env seek poll t fs)"
  using init
proof (induction fs arbitrary: t)
  case Nil
  then show ?case by simp
next
  case (Cons f fs)
  show ?case
  proof (cases rule: tail_files_cases [where t=t and f=f and env=env and seek=seek and poll=poll])
    case tracked
    show ?thesis
      unfolding tail_files_Cons_tracked [OF tracked]
      using Cons.prems by (rule Cons.IH)
  next
    case (open_error e)
    show ?thesis
      unfolding tail_files_Cons_open_error [OF open_error]
      by (rule Cons.IH) (rule acc_step, rule Cons.prems)
  next
    case (new parser perr)
    let ?a = "case perr of Some e \<Rightarrow> acc t @ [AddError (Error (''error creating parser: '' @ msg e))]
              | None \<Rightarrow> acc t"
    let ?tl = "\<lparr>Filename = f, tconfig = follower_config seek poll (Pipe t)\<rparr>"
    have "P (t\<lparr>acc := ?a\<rparr>)" using Cons.prems by (rule acc_step)
    moreover have "tailers (t\<lparr>acc := ?a\<rparr>) f = None" using new(1) by simp
    ultimately have "P ((t\<lparr>acc := ?a\<rparr>)\<lparr>tasks := tasks (t\<lparr>acc := ?a\<rparr>) @ [(parser,
         \<lparr>Filename = f, tconfig = follower_config seek poll (Pipe (t\<lparr>acc := ?a\<rparr>))\<rparr>)],
         tailers := (tailers (t\<lparr>acc := ?a\<rparr>))(f \<mapsto>
           \<lparr>Filename = f, tconfig = follower_config seek poll (Pipe (t\<lparr>acc := ?a\<rparr>))\<rparr>)\<rparr>)"
      by (rule new_step)
    then have "P (t\<lparr>acc := ?a, tasks := tasks t @ [(parser, ?tl)], tailers := (tailers t)(f \<mapsto> ?tl)\<rparr>)"
      by simp
    then show ?thesis
      unfolding tail_files_Cons_new [OF new]
      by (rule Cons.IH)
  qed
qed

lemma tail_patterns_Cons_panic:
  "Compile env p = (g, err) \<Longrightarrow> Match env g = None \<Longrightarrow>
   tail_patterns env seek poll t (p # rest) =
     Panics (t\<lparr>acc := (case err of
                Some e \<Rightarrow> acc t @ [AddError (Error (''E! Error Glob '' @ p @ '' failed to compile, '' @ msg e))]
              | None \<Rightarrow> acc t)\<rparr>)"
  by (cases err) simp_all

lemma tail_patterns_Cons_match:
  "Compile env p = (g, err) \<Longrightarrow> Match env g = Some fs \<Longrightarrow>
   tail_patterns env seek poll t (p # rest) =
     tail_patterns env seek poll
       (tail_files env seek poll
          (t\<lparr>acc := (case err of
                Some e \<Rightarrow> acc t @ [AddError (Error (''E! Error Glob '' @ p @ '' failed to compile, '' @ msg e))]
              | None \<Rightarrow> acc t)\<rparr>) fs)
       rest"
  by (cases err) simp_all

lemma tail_patterns_cases [case_names panic match]:
  assumes "\<And>g err. Compile env p = (g, err) \<Longrightarrow> Match env g = None \<Longrightarrow> P"
    and "\<And>g err fs. Compile env p = (g, err) \<Longrightarrow> Match env g = Some fs \<Longrightarrow> P"
  shows P
  using assms by (cases "Compile env p"; cases "Match env (fst (Compile env p))") auto

lemma tail_patterns_invariant:
  assumes init: "P t"
    and acc_step: "\<And>t a. P t \<Longrightarrow> P (t\<lparr>acc := a\<rparr>)"
    and new_step: "\<And>t f parser. P t \<Longrightarrow> tailers t f = None \<Longrightarrow>
        P (t\<lparr>tasks := tasks t @ [(parser, \<lparr>Filename = f, tconfig = follower_config seek poll (Pipe t)\<rparr>)],
             tailers := (tailers t)(f \<mapsto> \<lparr>Filename = f, tconfig = follower_config seek poll (Pipe t)\<rparr>)\<rparr>)"
  shows "P (reached (tail_patterns env seek poll t ps))"
  using init
proof (induction ps arbitrary: t)
  case Nil
  then show ?case by simp
next
  case (Cons p ps)
  show ?case
  proof (cases rule: tail_patterns_cases [where env=env and p=p])
    case (panic g err)
    show ?thesis
      unfolding tail_patterns_Cons_panic [OF panic]
      using Cons.prems by (simp add: acc_step)
  next
    case (match g err fs)
    show ?thesis
    proof -
      let ?t1 = "t\<lparr>acc := (case err of
                Some e \<Rightarrow> acc t @ [AddError (Error (''E! Error Glob '' @ p @ '' failed to compile, '' @ msg e))]
              | None \<Rightarrow> acc t)\<rparr>"
      have "P ?t1" using Cons.prems by (rule acc_step)
      then have "P (tail_files env seek poll ?t1 fs)"
        by (rule tail_files_invariant [where P=P]) (fact acc_step new_step)+
      then have "P (reached (tail_patterns env seek poll (tail_files env seek poll ?t1 fs) ps))"
        by (rule Cons.IH)
      then show ?thesis
        unfolding tail_patterns_Cons_match [OF match] .
    qed
  qed
qed

subsection \<open>What a discovery pass keeps\<close>

lemma tail_patterns_config:
  "Files (reached (tail_patterns env seek poll t ps)) = Files t
   \<and> FromBeginning (reached (tail_patterns env seek poll t ps)) = FromBeginning t
   \<and> Pipe (reached (tail_patterns env seek poll t ps)) = Pipe t
   \<and> WatchMethod (reached (tail_patterns env seek poll t ps)) = WatchMethod t
   \<and> parserFunc (reached (tail_patterns env seek poll t ps)) = parserFunc t"
  by (rule tail_patterns_invariant
      [where P="\<lambda>t'. Files t' = Files t \<and> FromBeginning t' = FromBeginning t \<and> Pipe t' = Pipe t
                  \<and> WatchMethod t' = WatchMethod t \<and> parserFunc t' = parserFunc t"]) simp_all

lemma keyed_tail_patterns:
  "keyed t \<Longrightarrow> keyed (reached (tail_patterns env seek poll t ps))"
  by (rule tail_patterns_invariant [where P=keyed]) (auto simp: keyed_def)

lemma one_task_tail_patterns:
  "one_task_per_path t \<Longrightarrow> one_task_per_path (reached (tail_patterns env seek poll t ps))"
proof (rule tail_patterns_invariant [where P=one_task_per_path])
  fix t :: "'a Tail" and f parser
  assume inv: "one_task_per_path t" and new: "tailers t f = None"
  from new have "f \<notin> dom (tailers t)" by auto
  with inv have "f \<notin> set (map (Filename \<circ> snd) (tasks t))"
    by (simp add: one_task_per_path_def)
  with inv show "one_task_per_path
      (t\<lparr>tasks := tasks t @ [(parser, \<lparr>Filename = f, tconfig = follower_config seek poll (Pipe t)\<rparr>)],
         tailers := (tailers t)(f \<mapsto> \<lparr>Filename = f, tconfig = follower_config seek poll (Pipe t)\<rparr>)\<rparr>)"
    by (simp add: one_task_per_path_def)
qed (simp_all add: one_task_per_path_def)

lemma tailers_kept_tail_patterns:
  "tailers t p = Some x \<Longrightarrow> tailers (reached (tail_patterns env seek poll t ps)) p = Some x"
  by (rule tail_patterns_invariant [where P="\<lambda>t'. tailers t' p = Some x"]) auto

lemma tailers_kept_tail_files:
  "tailers t p = Some x \<Longrightarrow> tailers (tail_files env seek poll t fs) p = Some x"
  by (rule tail_files_invariant [where P="\<lambda>t'. tailers t' p = Some x"]) auto

lemma new_tailers_tail_patterns:
  "tailers (reached (tail_patterns env seek poll t ps)) p = Some x \<Longrightarrow>
   tailers t p = Some x \<or> x = \<lparr>Filename = p, tconfig = follower_config seek poll (Pipe t)\<rparr>"
proof -
  have "Pipe (reached (tail_patterns env seek poll t ps)) = Pipe t \<and>
        (\<forall>p x. tailers (reached (tail_patterns env seek poll t ps)) p = Some x \<longrightarrow>
           tailers t p = Some x \<or> x = \<lparr>Filename = p, tconfig = follower_config seek poll (Pipe t)\<rparr>)"
    by (rule tail_patterns_invariant
        [where P="\<lambda>t'. Pipe t' = Pipe t \<and> (\<forall>p x. tailers t' p = Some x \<longrightarrow>
           tailers t p = Some x \<or> x = \<lparr>Filename = p, tconfig = follower_config seek poll (Pipe t)\<rparr>)"])
       auto
  then show "tailers (reached (tail_patterns env seek poll t ps)) p = Some x \<Longrightarrow>
   tailers t p = Some x \<or> x = \<lparr>Filename = p, tconfig = follower_config seek poll (Pipe t)\<rparr>"
    by blast
qed

text \<open>
  C5 (as amended). A follower started by \<open>Start\<close> seeks to the end of the file exactly
  when neither \<open>Pipe\<close> nor \<open>FromBeginning\<close> is set, and otherwise does not seek and
  reads from offset 0. A follower started by \<open>Gather\<close> never seeks: it reads from
  offset 0 whatever \<open>FromBeginning\<close> says. In both, the follower's pipe mode is the
  plugin's.
\<close>

theorem follower_start_position:
  "(tailers (reached (Start env a t)) p = Some x \<longrightarrow>
      Location (tconfig x) =
        (if \<not> Pipe t \<and> \<not> FromBeginning t then Some \<lparr>Offset = 0, Whence = 2\<rparr> else None)
      \<and> Config_Pipe (tconfig x) = Pipe t)
   \<and> (tailers (reached (Gather env a t)) q = Some y \<longrightarrow> tailers t q = None \<longrightarrow>
      Location (tconfig y) = None \<and> Config_Pipe (tconfig y) = Pipe t)"
proof (intro conjI impI)
  assume "tailers (reached (Start env a t)) p = Some x"
  then have x: "x = \<lparr>Filename = p, tconfig = follower_config
      (if \<not> Pipe t \<and> \<not> FromBeginning t then Some \<lparr>Offset = 0, Whence = 2\<rparr> else None)
      (WatchMethod t = ''poll'') (Pipe t)\<rparr>"
    using new_tailers_tail_patterns [of env _ _ "t\<lparr>acc := a, tailers := Map.empty\<rparr>" "Files t" p x]
    by (simp add: Start_def tailNewFiles_def)
  show "Location (tconfig x) =
        (if \<not> Pipe t \<and> \<not> FromBeginning t then Some \<lparr>Offset = 0, Whence = 2\<rparr> else None)"
    by (simp add: x)
  show "Config_Pipe (tconfig x) = Pipe t" by (simp add: x)
next
  assume "tailers (reached (Gather env a t)) q = Some y" and "tailers t q = None"
  then have y: "y = \<lparr>Filename = q, tconfig = follower_config None (WatchMethod t = ''poll'') (Pipe t)\<rparr>"
    using new_tailers_tail_patterns [of env _ _ t "Files t" q y]
    by (simp add: Gather_def tailNewFiles_def)
  show "Location (tconfig y) = None" by (simp add: y)
  show "Config_Pipe (tconfig y) = Pipe t" by (simp add: y)
qed

theorem follower_start_position_witness:
  "tailers (reached (Start log_env [] log_tail)) ''/var/log/a.log''
     = Some (a_log (Some \<lparr>Offset = 0, Whence = 2\<rparr>))
   \<and> Location (tconfig (a_log (Some \<lparr>Offset = 0, Whence = 2\<rparr>))) =
       (if \<not> Pipe log_tail \<and> \<not> FromBeginning log_tail
        then Some \<lparr>Offset = 0, Whence = 2\<rparr> else None)
   \<and> Config_Pipe (tconfig (a_log (Some \<lparr>Offset = 0, Whence = 2\<rparr>))) = Pipe log_tail
   \<and> tailers (reached (Gather log_env [] log_tail)) ''/var/log/a.log'' = Some (a_log None)
   \<and> tailers log_tail ''/var/log/a.log'' = None
   \<and> Location (tconfig (a_log None)) = None
   \<and> Config_Pipe (tconfig (a_log None)) = Pipe log_tail"
  using follower_start_position
    [of log_env "[]" log_tail "''/var/log/a.log''" "a_log (Some \<lparr>Offset = 0, Whence = 2\<rparr>)"
        "''/var/log/a.log''" "a_log None"]
  by (simp add: Start_def Gather_def tailNewFiles_def log_env_def log_tail_def TailFile_def
      a_log_def)

text \<open>
  C5 as the spec states it fails for a rescan. With \<open>FromBeginning\<close> and \<open>Pipe\<close>
  both false, a file that appears after \<open>Start\<close> is followed by \<open>Gather\<close> with a nil
  \<open>Location\<close>: from offset 0, not from the end of the file.
\<close>

theorem rescan_reads_from_start_counterexample:
  "FromBeginning log_tail = False \<and> Pipe log_tail = False \<and>
   map_option (Location \<circ> tconfig)
     (tailers (reached (calls [(empty_env, CallStart), (log_env, CallGather)] log_tail))
        ''/var/log/a.log'') = Some None"
  by (simp add: Start_def Gather_def tailNewFiles_def log_env_def empty_env_def log_tail_def
      TailFile_def)

subsection \<open>A second pass in the same filesystem\<close>

lemma tail_files_settled_unchanged:
  "settled env (follower_config seek poll (Pipe t)) t fs \<Longrightarrow>
   tailers (tail_files env seek poll t fs) = tailers t
   \<and> tasks (tail_files env seek poll t fs) = tasks t"
proof (induction fs arbitrary: t)
  case Nil
  show ?case by simp
next
  case (Cons f fs)
  from Cons.prems have rest: "settled env (follower_config seek poll (Pipe t)) t fs"
    and here: "tailers t f \<noteq> None \<or> TailFile_err env f (follower_config seek poll (Pipe t)) \<noteq> None"
    by (simp_all add: settled_def)
  show ?case
  proof (cases rule: tail_files_cases [where t=t and f=f and env=env and seek=seek and poll=poll])
    case tracked
    show ?thesis
      unfolding tail_files_Cons_tracked [OF tracked]
      using rest by (rule Cons.IH)
  next
    case (open_error e)
    let ?t1 = "t\<lparr>acc := acc t @ [AddError e]\<rparr>"
    have "settled env (follower_config seek poll (Pipe ?t1)) ?t1 fs"
      using rest by (simp add: settled_def)
    then have "tailers (tail_files env seek poll ?t1 fs) = tailers ?t1
        \<and> tasks (tail_files env seek poll ?t1 fs) = tasks ?t1"
      by (rule Cons.IH)
    then show ?thesis
      unfolding tail_files_Cons_open_error [OF open_error] by simp
  next
    case (new parser perr)
    with here show ?thesis by simp
  qed
qed

lemma tail_files_settles:
  "settled env (follower_config seek poll (Pipe t)) (tail_files env seek poll t fs) fs"
proof (induction fs arbitrary: t)
  case Nil
  show ?case by (simp add: settled_def)
next
  case (Cons f fs)
  show ?case
  proof (cases rule: tail_files_cases [where t=t and f=f and env=env and seek=seek and poll=poll])
    case tracked
    then obtain x where "tailers t f = Some x" by auto
    then have "tailers (tail_files env seek poll t fs) f = Some x"
      by (rule tailers_kept_tail_files)
    then show ?thesis
      unfolding tail_files_Cons_tracked [OF tracked]
      using Cons.IH [of t] by (simp add: settled_def)
  next
    case (open_error e)
    let ?t1 = "t\<lparr>acc := acc t @ [AddError e]\<rparr>"
    have "settled env (follower_config seek poll (Pipe ?t1)) (tail_files env seek poll ?t1 fs) fs"
      by (rule Cons.IH)
    then show ?thesis
      unfolding tail_files_Cons_open_error [OF open_error]
      using open_error(2) by (simp add: settled_def)
  next
    case (new parser perr)
    let ?tl = "\<lparr>Filename = f, tconfig = follower_config seek poll (Pipe t)\<rparr>"
    let ?t1 = "t\<lparr>acc := (case perr of Some e \<Rightarrow> acc t @ [AddError (Error (''error creating parser: '' @ msg e))]
                   | None \<Rightarrow> acc t),
          tasks := tasks t @ [(parser, ?tl)],
          tailers := (tailers t)(f \<mapsto> ?tl)\<rparr>"
    have "settled env (follower_config seek poll (Pipe ?t1)) (tail_files env seek poll ?t1 fs) fs"
      by (rule Cons.IH)
    moreover have "tailers ?t1 f = Some ?tl" by simp
    then have "tailers (tail_files env seek poll ?t1 fs) f = Some ?tl"
      by (rule tailers_kept_tail_files)
    ultimately show ?thesis
      unfolding tail_files_Cons_new [OF new]
      by (simp add: settled_def)
  qed
qed

lemma settled_kept_tail_patterns:
  assumes "settled env cfg t fs"
  shows "settled env cfg (reached (tail_patterns env seek poll t ps)) fs"
  unfolding settled_def
proof
  fix f assume "f \<in> set fs"
  with assms have "tailers t f \<noteq> None \<or> TailFile_err env f cfg \<noteq> None"
    by (simp add: settled_def)
  then show "tailers (reached (tail_patterns env seek poll t ps)) f \<noteq> None
      \<or> TailFile_err env f cfg \<noteq> None"
    using tailers_kept_tail_patterns [of t f _ env seek poll ps] by auto
qed

lemma tail_patterns_settles:
  "tail_patterns env seek poll t ps = Returns t1 r \<Longrightarrow>
   all_settled env (follower_config seek poll (Pipe t)) t1 ps"
proof (induction ps arbitrary: t)
  case Nil
  show ?case by (simp add: all_settled_def)
next
  case (Cons p ps)
  show ?case
  proof (cases rule: tail_patterns_cases [where env=env and p=p])
    case (panic g err)
    from Cons.prems show ?thesis
      unfolding tail_patterns_Cons_panic [OF panic] by simp
  next
    case (match g err fs)
    let ?t0 = "t\<lparr>acc := (case err of
                Some e \<Rightarrow> acc t @ [AddError (Error (''E! Error Glob '' @ p @ '' failed to compile, '' @ msg e))]
              | None \<Rightarrow> acc t)\<rparr>"
    let ?t' = "tail_files env seek poll ?t0 fs"
    let ?cfg = "follower_config seek poll (Pipe t)"
    have run: "tail_patterns env seek poll ?t' ps = Returns t1 r"
      using Cons.prems unfolding tail_patterns_Cons_match [OF match] .
    have pipe: "Pipe ?t' = Pipe t"
      using tail_files_config [of env seek poll ?t0 fs] by simp
    have rest: "all_settled env ?cfg t1 ps"
      using Cons.IH [OF run] by (simp add: pipe)
    have "settled env (follower_config seek poll (Pipe ?t0)) ?t' fs"
      by (rule tail_files_settles)
    then have "settled env ?cfg ?t' fs" by simp
    then have "settled env ?cfg (reached (tail_patterns env seek poll ?t' ps)) fs"
      by (rule settled_kept_tail_patterns)
    then have "settled env ?cfg t1 fs" by (simp add: run)
    with rest match show ?thesis by (simp add: all_settled_def)
  qed
qed

lemma tail_patterns_settled_unchanged:
  "all_settled env (follower_config seek poll (Pipe t)) t ps \<Longrightarrow>
   \<exists>t2. tail_patterns env seek poll t ps = Returns t2 None
        \<and> tailers t2 = tailers t \<and> tasks t2 = tasks t"
proof (induction ps arbitrary: t)
  case Nil
  show ?case by simp
next
  case (Cons p ps)
  let ?cfg = "follower_config seek poll (Pipe t)"
  from Cons.prems obtain fs where m: "Match env (fst (Compile env p)) = Some fs"
    and s: "settled env ?cfg t fs" and rest: "all_settled env ?cfg t ps"
    by (auto simp: all_settled_def)
  obtain g err where c: "Compile env p = (g, err)" by (cases "Compile env p")
  with m have match: "Match env g = Some fs" by simp
  let ?t0 = "t\<lparr>acc := (case err of
                Some e \<Rightarrow> acc t @ [AddError (Error (''E! Error Glob '' @ p @ '' failed to compile, '' @ msg e))]
              | None \<Rightarrow> acc t)\<rparr>"
  let ?t' = "tail_files env seek poll ?t0 fs"
  have "settled env (follower_config seek poll (Pipe ?t0)) ?t0 fs"
    using s by (simp add: settled_def)
  then have same: "tailers ?t' = tailers ?t0 \<and> tasks ?t' = tasks ?t0"
    by (rule tail_files_settled_unchanged)
  have pipe: "Pipe ?t' = Pipe t"
    using tail_files_config [of env seek poll ?t0 fs] by simp
  have "all_settled env (follower_config seek poll (Pipe ?t')) ?t' ps"
    using rest same by (simp add: pipe all_settled_def settled_def)
  then obtain t2 where "tail_patterns env seek poll ?t' ps = Returns t2 None"
    and "tailers t2 = tailers ?t'" and "tasks t2 = tasks ?t'"
    using Cons.IH [of ?t'] by blast
  with same show ?case
    unfolding tail_patterns_Cons_match [OF c match] by simp
qed

lemma Gather_twice:
  assumes "Gather env a t = Returns t1 r"
  shows "\<exists>t2. Gather env a' t1 = Returns t2 None \<and> tailers t2 = tailers t1 \<and> tasks t2 = tasks t1"
proof -
  let ?poll = "WatchMethod t = ''poll''"
  from assms have run: "tail_patterns env None ?poll t (Files t) = Returns t1 r"
    by (simp add: Gather_def tailNewFiles_def)
  have cfg: "Files t1 = Files t \<and> Pipe t1 = Pipe t \<and> WatchMethod t1 = WatchMethod t"
    using tail_patterns_config [of env None ?poll t "Files t"] by (simp add: run)
  have "all_settled env (follower_config None ?poll (Pipe t)) t1 (Files t)"
    using run by (rule tail_patterns_settles)
  then have "all_settled env (follower_config None ?poll (Pipe t1)) t1 (Files t)"
    by (simp add: cfg)
  then have "\<exists>t2. tail_patterns env None ?poll t1 (Files t) = Returns t2 None
        \<and> tailers t2 = tailers t1 \<and> tasks t2 = tasks t1"
    by (rule tail_patterns_settled_unchanged)
  then show ?thesis
    by (simp add: Gather_def tailNewFiles_def cfg)
qed

subsection \<open>Sequences of calls\<close>

lemma calls_invariant:
  fixes cs :: "('g env \<times> call) list"
  assumes "P t"
    and "\<And>(env :: 'g env) t. P t \<Longrightarrow> P (reached (Start env (acc t) t))"
    and "\<And>(env :: 'g env) t. P t \<Longrightarrow> P (reached (Gather env (acc t) t))"
  shows "P (reached (calls cs t))"
  using assms(1)
proof (induction cs arbitrary: t)
  case Nil
  then show ?case by simp
next
  case (Cons ec cs)
  obtain env c where ec: "ec = (env, c)" by (cases ec)
  let ?o = "case c of CallStart \<Rightarrow> Start env (acc t) t | CallGather \<Rightarrow> Gather env (acc t) t"
  have P1: "P (reached ?o)"
  proof (cases c)
    case CallStart
    then show ?thesis using assms(2) [OF Cons.prems, of env] by simp
  next
    case CallGather
    then show ?thesis using assms(3) [OF Cons.prems, of env] by simp
  qed
  show ?case
  proof (cases ?o)
    case (Panics t')
    with P1 show ?thesis by (simp add: ec)
  next
    case (Returns t' r)
    with P1 have "P t'" by simp
    then have "P (reached (calls cs t'))" by (rule Cons.IH)
    with Returns show ?thesis by (simp add: ec)
  qed
qed

lemma keyed_Start: "keyed (reached (Start env a t))"
  unfolding Start_def tailNewFiles_def
  by (rule keyed_tail_patterns) (simp add: keyed_def)

lemma keyed_Gather: "keyed t \<Longrightarrow> keyed (reached (Gather env a t))"
  unfolding Gather_def tailNewFiles_def
  by (rule keyed_tail_patterns)

lemma one_task_Start: "tasks t = [] \<Longrightarrow> one_task_per_path (reached (Start env a t))"
  unfolding Start_def tailNewFiles_def
  by (rule one_task_tail_patterns) (simp add: one_task_per_path_def)

lemma one_task_Gather: "one_task_per_path t \<Longrightarrow> one_task_per_path (reached (Gather env a t))"
  unfolding Gather_def tailNewFiles_def
  by (rule one_task_tail_patterns)

lemma one_task_Gathers:
  "one_task_per_path t \<Longrightarrow> one_task_per_path (reached (calls (map (\<lambda>e. (e, CallGather)) envs) t))"
proof (induction envs arbitrary: t)
  case Nil
  then show ?case by simp
next
  case (Cons e envs)
  have P1: "one_task_per_path (reached (Gather e (acc t) t))"
    using Cons.prems by (rule one_task_Gather)
  show ?case
  proof (cases "Gather e (acc t) t")
    case (Panics t')
    with P1 show ?thesis by simp
  next
    case (Returns t' r)
    with P1 have "one_task_per_path t'" by simp
    then have "one_task_per_path (reached (calls (map (\<lambda>e. (e, CallGather)) envs) t'))"
      by (rule Cons.IH)
    with Returns show ?thesis by simp
  qed
qed

text \<open>
  C4. After any sequence of \<open>Start\<close> and \<open>Gather\<close> calls, in filesystems that may
  change from call to call, every entry of the tracked-file map is the follower of the path
  it is stored under, so no path has two entries. After \<open>Start\<close> on a fresh plugin and
  any number of \<open>Gather\<close> calls, no two consumer tasks follow the same path and the
  paths with a consumer task are the keys of the map. A \<open>Gather\<close> that follows a
  \<open>Gather\<close> in the same filesystem returns nil and leaves the map and the consumer tasks
  as they were.
\<close>

theorem one_follower_per_path:
  "((\<forall>p x. tailers t p = Some x \<longrightarrow> Filename x = p) \<longrightarrow>
      (\<forall>p x. tailers (reached (calls cs t)) p = Some x \<longrightarrow> Filename x = p))
   \<and> (tasks t = [] \<longrightarrow>
        distinct (map (Filename \<circ> snd)
          (tasks (reached (calls ((env0, CallStart) # map (\<lambda>e. (e, CallGather)) envs) t))))
        \<and> set (map (Filename \<circ> snd)
            (tasks (reached (calls ((env0, CallStart) # map (\<lambda>e. (e, CallGather)) envs) t))))
          = dom (tailers (reached (calls ((env0, CallStart) # map (\<lambda>e. (e, CallGather)) envs) t))))
   \<and> (Gather env a t = Returns t1 r \<longrightarrow>
        (\<exists>t2. Gather env a' t1 = Returns t2 None \<and> tailers t2 = tailers t1 \<and> tasks t2 = tasks t1))"
proof (intro conjI impI)
  assume "\<forall>p x. tailers t p = Some x \<longrightarrow> Filename x = p"
  then have "keyed t" by (simp add: keyed_def)
  then have "keyed (reached (calls cs t))"
    by (rule calls_invariant) (simp_all add: keyed_Start keyed_Gather)
  then show "\<forall>p x. tailers (reached (calls cs t)) p = Some x \<longrightarrow> Filename x = p"
    by (simp add: keyed_def)
next
  let ?r = "reached (calls ((env0, CallStart) # map (\<lambda>e. (e, CallGather)) envs) t)"
  assume fresh: "tasks t = []"
  have "one_task_per_path ?r"
  proof (cases "Start env0 (acc t) t")
    case (Panics t')
    with one_task_Start [OF fresh, of env0 "acc t"] show ?thesis by simp
  next
    case (Returns t' r')
    with one_task_Start [OF fresh, of env0 "acc t"] have "one_task_per_path t'" by simp
    then have "one_task_per_path (reached (calls (map (\<lambda>e. (e, CallGather)) envs) t'))"
      by (rule one_task_Gathers)
    with Returns show ?thesis by simp
  qed
  then show "distinct (map (Filename \<circ> snd) (tasks ?r))"
    and "set (map (Filename \<circ> snd) (tasks ?r)) = dom (tailers ?r)"
    by (simp_all add: one_task_per_path_def)
next
  assume "Gather env a t = Returns t1 r"
  then show "\<exists>t2. Gather env a' t1 = Returns t2 None \<and> tailers t2 = tailers t1 \<and> tasks t2 = tasks t1"
    by (rule Gather_twice)
qed

theorem one_follower_per_path_witness:
  "tailers (reached (calls [(log_env, CallStart), (log_env, CallGather)] log_tail))
       ''/var/log/a.log'' = Some (a_log (Some \<lparr>Offset = 0, Whence = 2\<rparr>))
   \<and> Filename (a_log (Some \<lparr>Offset = 0, Whence = 2\<rparr>)) = ''/var/log/a.log''
   \<and> tasks log_tail = []
   \<and> distinct (map (Filename \<circ> snd)
        (tasks (reached (calls ((log_env, CallStart) # map (\<lambda>e. (e, CallGather)) [log_env, log_env])
                           log_tail))))
   \<and> set (map (Filename \<circ> snd)
        (tasks (reached (calls ((log_env, CallStart) # map (\<lambda>e. (e, CallGather)) [log_env, log_env])
                           log_tail))))
       = dom (tailers (reached (calls ((log_env, CallStart) # map (\<lambda>e. (e, CallGather)) [log_env, log_env])
                                  log_tail)))
   \<and> tasks (reached (calls ((log_env, CallStart) # map (\<lambda>e. (e, CallGather)) [log_env, log_env])
                        log_tail))
       = [(Some strict_csv, a_log (Some \<lparr>Offset = 0, Whence = 2\<rparr>))]
   \<and> Gather log_env [] log_tail =
       Returns (log_tail\<lparr>tailers := [''/var/log/a.log'' \<mapsto> a_log None],
                         tasks := [(Some strict_csv, a_log None)],
                         acc := [AddError (Error ''open /var/log/b.log: permission denied'')]\<rparr>)
               None
   \<and> (\<exists>t2. Gather log_env []
              (log_tail\<lparr>tailers := [''/var/log/a.log'' \<mapsto> a_log None],
                         tasks := [(Some strict_csv, a_log None)],
                         acc := [AddError (Error ''open /var/log/b.log: permission denied'')]\<rparr>)
             = Returns t2 None
          \<and> tailers t2 = tailers
              (log_tail\<lparr>tailers := [''/var/log/a.log'' \<mapsto> a_log None],
                         tasks := [(Some strict_csv, a_log None)],
                         acc := [AddError (Error ''open /var/log/b.log: permission denied'')]\<rparr>)
          \<and> tasks t2 = tasks
              (log_tail\<lparr>tailers := [''/var/log/a.log'' \<mapsto> a_log None],
                         tasks := [(Some strict_csv, a_log None)],
                         acc := [AddError (Error ''open /var/log/b.log: permission denied'')]\<rparr>))"
proof -
  let ?t1 = "log_tail\<lparr>tailers := [''/var/log/a.log'' \<mapsto> a_log None],
                         tasks := [(Some strict_csv, a_log None)],
                         acc := [AddError (Error ''open /var/log/b.log: permission denied'')]\<rparr>"
  note inst = one_follower_per_path
    [of log_tail "[(log_env, CallStart), (log_env, CallGather)]" log_env "[log_env, log_env]"
        log_env "[]" ?t1 None "[]"]
  have h1: "\<forall>p x. tailers log_tail p = Some x \<longrightarrow> Filename x = p"
    by (simp add: log_tail_def)
  have h2: "tasks log_tail = []"
    by (simp add: log_tail_def)
  have h3: "Gather log_env [] log_tail = Returns ?t1 None"
    by (simp add: Gather_def tailNewFiles_def log_env_def log_tail_def TailFile_def a_log_def)
  have run: "tasks (reached (calls ((log_env, CallStart) # map (\<lambda>e. (e, CallGather)) [log_env, log_env])
                        log_tail))
       = [(Some strict_csv, a_log (Some \<lparr>Offset = 0, Whence = 2\<rparr>))]"
    by (simp add: Start_def Gather_def tailNewFiles_def log_env_def log_tail_def TailFile_def
        a_log_def)
  have tracked: "tailers (reached (calls [(log_env, CallStart), (log_env, CallGather)] log_tail))
       ''/var/log/a.log'' = Some (a_log (Some \<lparr>Offset = 0, Whence = 2\<rparr>))"
    by (simp add: Start_def Gather_def tailNewFiles_def log_env_def log_tail_def TailFile_def
        a_log_def)
  from inst h1 h2 h3 run tracked show ?thesis by blast
qed

subsection \<open>A pattern that does not compile\<close>

lemma failed_pattern_panics:
  "p \<in> set ps \<Longrightarrow> Compile env p = (None, Some e) \<Longrightarrow> Match env None = None \<Longrightarrow>
   \<exists>t'. tail_patterns env seek poll t ps = Panics t'"
proof (induction ps arbitrary: t)
  case Nil
  then show ?case by simp
next
  case (Cons q qs)
  show ?case
  proof (cases rule: tail_patterns_cases [where env=env and p=q])
    case (panic g err)
    show ?thesis
      unfolding tail_patterns_Cons_panic [OF panic] by simp
  next
    case (match g err fs)
    with Cons.prems have "q \<noteq> p" by auto
    with Cons.prems have "p \<in> set qs" by simp
    then show ?thesis
      unfolding tail_patterns_Cons_match [OF match]
      using Cons.prems(2,3) by (rule Cons.IH)
  qed
qed

text \<open>
  C2 (the code at the claim's failing input). When \<open>globpath.Compile\<close> fails for a
  pattern, returning the nil pointer with the error, and \<open>Match\<close> on the nil pointer
  panics, the pass reports the error and panics at that pattern: the patterns after it
  are not processed, and \<open>Gather\<close> and \<open>Start\<close> panic whenever such a pattern is among
  \<open>Files\<close>.
\<close>

theorem glob_error_aborts_pass:
  assumes "Compile env p = (None, Some e)" and "Match env None = None"
  shows "tail_patterns env seek poll t (p # rest) =
           Panics (t\<lparr>acc := acc t @
             [AddError (Error (''E! Error Glob '' @ p @ '' failed to compile, '' @ msg e))]\<rparr>)
         \<and> (p \<in> set (Files t) \<longrightarrow>
              (\<exists>t'. Gather env a t = Panics t') \<and> (\<exists>t'. Start env a t = Panics t'))"
proof
  show "tail_patterns env seek poll t (p # rest) =
           Panics (t\<lparr>acc := acc t @
             [AddError (Error (''E! Error Glob '' @ p @ '' failed to compile, '' @ msg e))]\<rparr>)"
    unfolding tail_patterns_Cons_panic [OF assms] by simp
  show "p \<in> set (Files t) \<longrightarrow>
          (\<exists>t'. Gather env a t = Panics t') \<and> (\<exists>t'. Start env a t = Panics t')"
  proof (intro impI conjI)
    assume "p \<in> set (Files t)"
    then show "\<exists>t'. Gather env a t = Panics t'"
      unfolding Gather_def tailNewFiles_def
      using assms by (rule failed_pattern_panics)
  next
    assume "p \<in> set (Files t)"
    then have "p \<in> set (Files (t\<lparr>acc := a, tailers := Map.empty\<rparr>))" by simp
    then show "\<exists>t'. Start env a t = Panics t'"
      unfolding Start_def tailNewFiles_def
      using assms by (rule failed_pattern_panics)
  qed
qed

theorem glob_error_aborts_pass_witness:
  "tail_patterns log_env None False bad_tail (''/var/log/**/['' # [''/var/log/a.log'']) =
       Panics (bad_tail\<lparr>acc := acc bad_tail @
         [AddError (Error (''E! Error Glob '' @ ''/var/log/**/['' @ '' failed to compile, ''
                           @ msg (Error ''unexpected end of input'')))]\<rparr>)
   \<and> ''/var/log/**/['' \<in> set (Files bad_tail)
   \<and> (\<exists>t'. Gather log_env [] bad_tail = Panics t')
   \<and> (\<exists>t'. Start log_env [] bad_tail = Panics t')"
proof -
  have h1: "Compile log_env ''/var/log/**/['' = (None, Some (Error ''unexpected end of input''))"
    by (simp add: log_env_def)
  have h2: "Match log_env None = None"
    by (simp add: log_env_def)
  have h3: "''/var/log/**/['' \<in> set (Files bad_tail)"
    by (simp add: bad_tail_def)
  note inst = glob_error_aborts_pass
    [where seek=None and poll=False and t=bad_tail and rest="[''/var/log/a.log'']" and a="[]",
     OF h1 h2]
  from inst h3 show ?thesis by blast
qed

lemma never_returns_error:
  "tail_patterns env seek poll t ps \<noteq> Returns t' (Some e)"
proof (induction ps arbitrary: t)
  case Nil
  show ?case by simp
next
  case (Cons p ps)
  show ?case
  proof (cases rule: tail_patterns_cases [where env=env and p=p])
    case (panic g err)
    show ?thesis unfolding tail_patterns_Cons_panic [OF panic] by simp
  next
    case (match g err fs)
    show ?thesis unfolding tail_patterns_Cons_match [OF match] by (rule Cons.IH)
  qed
qed

lemma returns_nil_if_match_returns:
  "\<forall>p \<in> set ps. Match env (fst (Compile env p)) \<noteq> None \<Longrightarrow>
   \<exists>t'. tail_patterns env seek poll t ps = Returns t' None"
proof (induction ps arbitrary: t)
  case Nil
  show ?case by simp
next
  case (Cons p ps)
  show ?case
  proof (cases rule: tail_patterns_cases [where env=env and p=p])
    case (panic g err)
    with Cons.prems show ?thesis by simp
  next
    case (match g err fs)
    from Cons.prems have "\<forall>p \<in> set ps. Match env (fst (Compile env p)) \<noteq> None" by simp
    then show ?thesis unfolding tail_patterns_Cons_match [OF match] by (rule Cons.IH)
  qed
qed

lemma Start_Gather_never_return_error:
  "Start env a t \<noteq> Returns t' (Some e) \<and> Gather env a t \<noteq> Returns t' (Some e)"
  by (simp add: Start_def Gather_def tailNewFiles_def never_returns_error)

lemma Start_Gather_return_nil:
  assumes "\<forall>p \<in> set (Files t). Match env (fst (Compile env p)) \<noteq> None"
  shows "(\<exists>t'. Start env a t = Returns t' None) \<and> (\<exists>t'. Gather env a t = Returns t' None)"
proof
  from assms have "\<forall>p \<in> set (Files (t\<lparr>acc := a, tailers := Map.empty\<rparr>)).
      Match env (fst (Compile env p)) \<noteq> None"
    by simp
  then show "\<exists>t'. Start env a t = Returns t' None"
    unfolding Start_def tailNewFiles_def by (rule returns_nil_if_match_returns)
  from assms show "\<exists>t'. Gather env a t = Returns t' None"
    unfolding Gather_def tailNewFiles_def by (rule returns_nil_if_match_returns)
qed

text \<open>
  C10 (the code at the claim's failing input). With a pattern that does not compile in
  front of \<open>Files\<close>, in a filesystem where \<open>Match\<close> on the nil pointer panics,
  \<open>Start\<close> and \<open>Gather\<close> report the error to the accumulator and then panic: they
  do not return nil, and the file the second pattern names is not followed.
\<close>

theorem Start_Gather_panic_on_glob_error:
  "Start log_env [] bad_tail =
     Panics (bad_tail\<lparr>acc :=
        [AddError (Error ''E! Error Glob /var/log/**/[ failed to compile, unexpected end of input'')]\<rparr>)
   \<and> Gather log_env [] bad_tail =
     Panics (bad_tail\<lparr>acc :=
        [AddError (Error ''E! Error Glob /var/log/**/[ failed to compile, unexpected end of input'')]\<rparr>)"
  by (simp add: Start_def Gather_def tailNewFiles_def log_env_def log_tail_def bad_tail_def)

section \<open>Properties of accRow\<close>

lemma new_columns_apply:
  "new_columns cols m k = (if k \<in> set cols then Some VNil else m k)"
  by (induction cols arbitrary: m) auto

lemma store_columns_apply:
  "distinct (map fst kvs) \<Longrightarrow>
   store_columns kvs m h = (case map_of kvs h of None \<Rightarrow> m h | Some v \<Rightarrow> Some v)"
proof (induction kvs arbitrary: m)
  case Nil
  show ?case by simp
next
  case (Cons kv kvs)
  obtain k v where kv: "kv = (k, v)" by (cases kv)
  from Cons.prems kv have notin: "map_of kvs k = None" and d: "distinct (map fst kvs)"
    by (auto simp: map_of_eq_None_iff)
  have "store_columns (kv # kvs) m h = store_columns kvs (m(k \<mapsto> v)) h"
    by (simp add: kv)
  also have "\<dots> = (case map_of kvs h of None \<Rightarrow> (m(k \<mapsto> v)) h | Some v \<Rightarrow> Some v)"
    by (rule Cons.IH [OF d])
  also have "\<dots> = (case map_of (kv # kvs) h of None \<Rightarrow> m h | Some v \<Rightarrow> Some v)"
    using notin by (cases "h = k"; cases "map_of kvs h") (simp_all add: kv)
  finally show ?case .
qed

lemma scanned_columnMap:
  assumes "distinct cols" and "length vals = length cols"
  shows "store_columns (zip cols vals) (new_columns cols Map.empty) = map_of (zip cols vals)"
proof
  fix k
  have d: "distinct (map fst (zip cols vals))" using assms by simp
  show "store_columns (zip cols vals) (new_columns cols Map.empty) k = map_of (zip cols vals) k"
  proof (cases "map_of (zip cols vals) k")
    case None
    then have "k \<notin> set cols"
      using assms(2) by (simp add: map_of_zip_is_None)
    with None show ?thesis
      by (simp add: store_columns_apply [OF d] new_columns_apply)
  next
    case (Some v)
    then show ?thesis by (simp add: store_columns_apply [OF d])
  qed
qed

lemma map_of_entries:
  "map_of (entries ks cm) h = (if h \<in> set ks then cm h else None)"
  by (induction ks) (auto simp: entries_def)

lemma distinct_entries: "distinct ks \<Longrightarrow> distinct (map fst (entries ks cm))"
  by (induction ks) (auto simp: entries_def)

lemma map_of_entries_all:
  assumes "dom cm \<subseteq> set ks"
  shows "map_of (entries ks cm) = cm"
proof
  fix h
  show "map_of (entries ks cm) h = cm h"
  proof (cases "h \<in> set ks")
    case True
    then show ?thesis by (simp add: map_of_entries)
  next
    case False
    with assms have "h \<notin> dom cm" by blast
    then have "cm h = None" by (simp add: domIff)
    with False show ?thesis by (simp add: map_of_entries)
  qed
qed

lemma tag_loop_apply:
  "distinct (map fst es) \<Longrightarrow>
   fst (tag_loop es (m0, tg0)) =
     (case Option.bind (map_of es ''measurement'') as_string of Some s \<Rightarrow> s | None \<Rightarrow> m0)
   \<and> snd (tag_loop es (m0, tg0)) h =
     (if h = ''measurement'' then tg0 h
      else (case Option.bind (map_of es h) as_string of Some s \<Rightarrow> Some s | None \<Rightarrow> tg0 h))"
proof (induction es arbitrary: m0 tg0)
  case Nil
  show ?case by simp
next
  case (Cons e es)
  obtain k v where e: "e = (k, v)" by (cases e)
  from Cons.prems e have notin: "map_of es k = None" and d: "distinct (map fst es)"
    by (auto simp: map_of_eq_None_iff)
  note ih = Cons.IH [OF d]
  show ?case
  proof (cases "as_string v")
    case None
    have step: "tag_loop (e # es) (m0, tg0) = tag_loop es (m0, tg0)"
      using None by (simp add: e)
    show ?thesis
    proof (intro conjI)
      show "fst (tag_loop (e # es) (m0, tg0)) =
          (case Option.bind (map_of (e # es) ''measurement'') as_string of Some s \<Rightarrow> s | None \<Rightarrow> m0)"
        unfolding step ih [of m0 tg0, THEN conjunct1]
        using notin None by (cases "k = ''measurement''") (simp_all add: e)
      show "snd (tag_loop (e # es) (m0, tg0)) h =
          (if h = ''measurement'' then tg0 h
           else (case Option.bind (map_of (e # es) h) as_string of Some s \<Rightarrow> Some s | None \<Rightarrow> tg0 h))"
        unfolding step ih [of m0 tg0, THEN conjunct2]
        using notin None by (cases "h = k") (simp_all add: e)
    qed
  next
    case (Some s)
    show ?thesis
    proof (cases "k = ''measurement''")
      case True
      have step: "tag_loop (e # es) (m0, tg0) = tag_loop es (s, tg0)"
        using True Some by (simp add: e)
      show ?thesis
      proof (intro conjI)
        show "fst (tag_loop (e # es) (m0, tg0)) =
            (case Option.bind (map_of (e # es) ''measurement'') as_string of Some s \<Rightarrow> s | None \<Rightarrow> m0)"
          unfolding step ih [of s tg0, THEN conjunct1]
          using notin Some True by (simp add: e)
        show "snd (tag_loop (e # es) (m0, tg0)) h =
            (if h = ''measurement'' then tg0 h
             else (case Option.bind (map_of (e # es) h) as_string of Some s \<Rightarrow> Some s | None \<Rightarrow> tg0 h))"
          unfolding step ih [of s tg0, THEN conjunct2]
          using True by (simp add: e)
      qed
    next
      case False
      have step: "tag_loop (e # es) (m0, tg0) = tag_loop es (m0, tg0(k \<mapsto> s))"
        using False Some by (simp add: e)
      show ?thesis
      proof (intro conjI)
        show "fst (tag_loop (e # es) (m0, tg0)) =
            (case Option.bind (map_of (e # es) ''measurement'') as_string of Some s \<Rightarrow> s | None \<Rightarrow> m0)"
          unfolding step ih [of m0 "tg0(k \<mapsto> s)", THEN conjunct1]
          using False by (simp add: e)
        show "snd (tag_loop (e # es) (m0, tg0)) h =
            (if h = ''measurement'' then tg0 h
             else (case Option.bind (map_of (e # es) h) as_string of Some s \<Rightarrow> Some s | None \<Rightarrow> tg0 h))"
          unfolding step ih [of m0 "tg0(k \<mapsto> s)", THEN conjunct2]
          using notin Some False by (cases "h = k") (simp_all add: e split: option.splits)
      qed
    qed
  qed
qed

lemma field_loop_apply:
  "distinct (map fst es) \<Longrightarrow>
   field_loop es f0 h =
     (case map_of es h of None \<Rightarrow> f0 h
      | Some v \<Rightarrow> if as_string v = None then Some v else f0 h)"
proof (induction es arbitrary: f0)
  case Nil
  show ?case by simp
next
  case (Cons e es)
  obtain k v where e: "e = (k, v)" by (cases e)
  from Cons.prems e have notin: "map_of es k = None" and d: "distinct (map fst es)"
    by (auto simp: map_of_eq_None_iff)
  show ?case
  proof (cases "as_string v")
    case None
    then have "field_loop (e # es) f0 h = field_loop es (f0(k \<mapsto> v)) h"
      by (simp add: e)
    also have "\<dots> = (case map_of es h of None \<Rightarrow> (f0(k \<mapsto> v)) h
        | Some w \<Rightarrow> if as_string w = None then Some w else (f0(k \<mapsto> v)) h)"
      by (rule Cons.IH [OF d])
    also have "\<dots> = (case map_of (e # es) h of None \<Rightarrow> f0 h
        | Some w \<Rightarrow> if as_string w = None then Some w else f0 h)"
      using notin None by (cases "h = k"; cases "map_of es h") (simp_all add: e)
    finally show ?thesis .
  next
    case (Some s)
    then have "field_loop (e # es) f0 h = field_loop es f0 h"
      by (simp add: e)
    also have "\<dots> = (case map_of es h of None \<Rightarrow> f0 h
        | Some w \<Rightarrow> if as_string w = None then Some w else f0 h)"
      by (rule Cons.IH [OF d])
    also have "\<dots> = (case map_of (e # es) h of None \<Rightarrow> f0 h
        | Some w \<Rightarrow> if as_string w = None then Some w else f0 h)"
      using notin Some by (cases "h = k"; cases "map_of es h") (simp_all add: e)
    finally show ?thesis .
  qed
qed

lemma tag_loop_entries:
  assumes "distinct ks" and "dom cm \<subseteq> set ks"
  shows "tag_loop (entries ks cm) ([], Map.empty) = (spec_measurement cm, spec_tags cm)"
proof (rule prod_eqI)
  note m = map_of_entries_all [OF assms(2)]
  note d = distinct_entries [OF assms(1), of cm]
  show "fst (tag_loop (entries ks cm) ([], Map.empty)) = fst (spec_measurement cm, spec_tags cm)"
    using tag_loop_apply [OF d, of "[]" Map.empty] by (simp add: m spec_measurement_def)
  show "snd (tag_loop (entries ks cm) ([], Map.empty)) = snd (spec_measurement cm, spec_tags cm)"
  proof
    fix h
    show "snd (tag_loop (entries ks cm) ([], Map.empty)) h = snd (spec_measurement cm, spec_tags cm) h"
      using tag_loop_apply [OF d, of "[]" Map.empty h]
      by (simp add: m spec_tags_def split: option.splits)
  qed
qed

lemma field_loop_entries:
  assumes "distinct ks" and "dom cm \<subseteq> set ks"
  shows "field_loop (entries ks cm) Map.empty = spec_fields cm"
proof
  fix h
  note m = map_of_entries_all [OF assms(2)]
  note d = distinct_entries [OF assms(1), of cm]
  show "field_loop (entries ks cm) Map.empty h = spec_fields cm h"
    by (simp add: field_loop_apply [OF d] m spec_fields_def split: option.splits)
qed

lemma accRow_eq:
  assumes d: "distinct (OrderedColumns q)"
    and scan: "row (length (OrderedColumns q)) = Inr vals"
    and len: "length vals = length (OrderedColumns q)"
    and k1: "distinct ks1" "set ks1 = set (OrderedColumns q)"
    and k2: "distinct ks2" "set ks2 = set (OrderedColumns q)"
  shows "accRow ks1 ks2 q a row now =
     (if ResultByRow q then
        (case map_of (zip (OrderedColumns q) vals) ''value'' of
           None \<Rightarrow> Panics a
         | Some v \<Rightarrow>
             Returns (a @ [AddFields (spec_measurement (map_of (zip (OrderedColumns q) vals)))
                             [''value'' \<mapsto> v]
                             (spec_tags (map_of (zip (OrderedColumns q) vals))) now]) None)
      else
        Returns (a @ [AddFields (spec_measurement (map_of (zip (OrderedColumns q) vals)))
                        (spec_fields (map_of (zip (OrderedColumns q) vals)))
                        (spec_tags (map_of (zip (OrderedColumns q) vals))) now]) None)"
proof -
  let ?cols = "OrderedColumns q"
  let ?cm = "map_of (zip ?cols vals)"
  have n: "length (remdups ?cols) = length ?cols"
    using d by (simp add: distinct_remdups_id)
  have cm: "store_columns (zip ?cols vals) (new_columns ?cols Map.empty) = ?cm"
    using d len by (rule scanned_columnMap)
  have dom: "dom ?cm = set ?cols"
    using len by (simp add: dom_map_of_zip)
  have t: "tag_loop (entries ks1 ?cm) ([], Map.empty) = (spec_measurement ?cm, spec_tags ?cm)"
    using k1 dom by (intro tag_loop_entries) simp_all
  have f: "field_loop (entries ks2 ?cm) Map.empty = spec_fields ?cm"
    using k2 dom by (intro field_loop_entries) simp_all
  show ?thesis
    by (simp add: accRow_def Let_def n scan cm t f)
qed

lemma spec_at_column:
  assumes d: "distinct cols" and len: "length vals = length cols" and i: "i < length cols"
  shows "(case as_string (vals ! i) of
            Some str \<Rightarrow>
              spec_fields (map_of (zip cols vals)) (cols ! i) = None
              \<and> (if cols ! i = ''measurement''
                 then spec_measurement (map_of (zip cols vals)) = str
                      \<and> spec_tags (map_of (zip cols vals)) (cols ! i) = None
                 else spec_tags (map_of (zip cols vals)) (cols ! i) = Some str)
          | None \<Rightarrow>
              spec_fields (map_of (zip cols vals)) (cols ! i) = Some (vals ! i)
              \<and> spec_tags (map_of (zip cols vals)) (cols ! i) = None)"
proof -
  have at: "map_of (zip cols vals) (cols ! i) = Some (vals ! i)"
    using len d i by (simp add: map_of_zip_nth)
  show ?thesis
  proof (cases "as_string (vals ! i)")
    case None
    then show ?thesis by (simp add: spec_fields_def spec_tags_def at)
  next
    case (Some str)
    then show ?thesis
      using at by (auto simp: spec_fields_def spec_tags_def spec_measurement_def)
  qed
qed

lemma dom_spec_tags: "dom (spec_tags cm) \<subseteq> dom cm"
  by (auto simp: spec_tags_def split: if_splits Option.bind_splits)

lemma dom_spec_fields: "dom (spec_fields cm) \<subseteq> dom cm"
  by (auto simp: spec_fields_def split: option.splits if_splits)

text \<open>
  C8. For a query whose column names are distinct and a row that \<open>Scan\<close> reads, one
  value per column, whatever the orders in which the two loops visit the map: the string
  value of the column \<open>measurement\<close> is the measurement name and is no tag, every other
  column with a string value is a tag under its column name, and no other column is a tag.
  Without \<open>ResultByRow\<close>, \<open>accRow\<close> adds one record, whose fields are exactly the
  columns whose value is not a string, under their column names. With \<open>ResultByRow\<close>
  the tags and the name are the same, the only field is \<open>value\<close>, and \<open>accRow\<close>
  panics when no column has that name.
\<close>

theorem accRow_classifies_columns:
  assumes d: "distinct (OrderedColumns q)"
    and scan: "row (length (OrderedColumns q)) = Inr vals"
    and len: "length vals = length (OrderedColumns q)"
    and k1: "distinct ks1" "set ks1 = set (OrderedColumns q)"
    and k2: "distinct ks2" "set ks2 = set (OrderedColumns q)"
  shows "\<exists>measurement tgs.
     (if ResultByRow q then
        (case map_of (zip (OrderedColumns q) vals) ''value'' of
           None \<Rightarrow> accRow ks1 ks2 q a row now = Panics a
         | Some v \<Rightarrow>
             accRow ks1 ks2 q a row now =
               Returns (a @ [AddFields measurement [''value'' \<mapsto> v] tgs now]) None)
      else
        (\<exists>flds.
           accRow ks1 ks2 q a row now =
             Returns (a @ [AddFields measurement flds tgs now]) None
           \<and> (\<forall>i < length (OrderedColumns q).
                case as_string (vals ! i) of
                  Some str \<Rightarrow> flds (OrderedColumns q ! i) = None
                | None \<Rightarrow> flds (OrderedColumns q ! i) = Some (vals ! i))
           \<and> dom flds \<subseteq> set (OrderedColumns q)))
     \<and> (\<forall>i < length (OrderedColumns q).
          case as_string (vals ! i) of
            Some str \<Rightarrow>
              if OrderedColumns q ! i = ''measurement''
              then measurement = str \<and> tgs (OrderedColumns q ! i) = None
              else tgs (OrderedColumns q ! i) = Some str
          | None \<Rightarrow> tgs (OrderedColumns q ! i) = None)
     \<and> dom tgs \<subseteq> set (OrderedColumns q)"
proof -
  let ?cols = "OrderedColumns q"
  let ?cm = "map_of (zip ?cols vals)"
  note eq = accRow_eq
    [where q=q and row=row and vals=vals and ?ks1.0=ks1 and ?ks2.0=ks2 and a=a and now=now,
     OF d scan len k1 k2]
  have dom: "dom ?cm = set ?cols"
    using len by (simp add: dom_map_of_zip)
  have at: "\<And>i. i < length ?cols \<Longrightarrow>
      (case as_string (vals ! i) of
            Some str \<Rightarrow>
              spec_fields ?cm (?cols ! i) = None
              \<and> (if ?cols ! i = ''measurement''
                 then spec_measurement ?cm = str \<and> spec_tags ?cm (?cols ! i) = None
                 else spec_tags ?cm (?cols ! i) = Some str)
          | None \<Rightarrow>
              spec_fields ?cm (?cols ! i) = Some (vals ! i)
              \<and> spec_tags ?cm (?cols ! i) = None)"
    using d len by (rule spec_at_column)
  have tags: "\<forall>i < length ?cols.
          case as_string (vals ! i) of
            Some str \<Rightarrow>
              if ?cols ! i = ''measurement''
              then spec_measurement ?cm = str \<and> spec_tags ?cm (?cols ! i) = None
              else spec_tags ?cm (?cols ! i) = Some str
          | None \<Rightarrow> spec_tags ?cm (?cols ! i) = None"
  proof (intro allI impI)
    fix i assume "i < length ?cols"
    from at [OF this] show "case as_string (vals ! i) of
            Some str \<Rightarrow>
              if ?cols ! i = ''measurement''
              then spec_measurement ?cm = str \<and> spec_tags ?cm (?cols ! i) = None
              else spec_tags ?cm (?cols ! i) = Some str
          | None \<Rightarrow> spec_tags ?cm (?cols ! i) = None"
      by (cases "as_string (vals ! i)"; cases "?cols ! i = ''measurement''") simp_all
  qed
  have flds: "\<forall>i < length ?cols.
                case as_string (vals ! i) of
                  Some str \<Rightarrow> spec_fields ?cm (?cols ! i) = None
                | None \<Rightarrow> spec_fields ?cm (?cols ! i) = Some (vals ! i)"
  proof (intro allI impI)
    fix i assume "i < length ?cols"
    from at [OF this] show "case as_string (vals ! i) of
                  Some str \<Rightarrow> spec_fields ?cm (?cols ! i) = None
                | None \<Rightarrow> spec_fields ?cm (?cols ! i) = Some (vals ! i)"
      by (cases "as_string (vals ! i)") simp_all
  qed
  have dt: "dom (spec_tags ?cm) \<subseteq> set ?cols"
    using dom_spec_tags [of ?cm] dom by simp
  have df: "dom (spec_fields ?cm) \<subseteq> set ?cols"
    using dom_spec_fields [of ?cm] dom by simp
  show ?thesis
  proof (intro exI [of _ "spec_measurement ?cm"] exI [of _ "spec_tags ?cm"] conjI)
    show "if ResultByRow q then
        (case ?cm ''value'' of
           None \<Rightarrow> accRow ks1 ks2 q a row now = Panics a
         | Some v \<Rightarrow>
             accRow ks1 ks2 q a row now =
               Returns (a @ [AddFields (spec_measurement ?cm) [''value'' \<mapsto> v] (spec_tags ?cm) now]) None)
      else
        (\<exists>flds.
           accRow ks1 ks2 q a row now =
             Returns (a @ [AddFields (spec_measurement ?cm) flds (spec_tags ?cm) now]) None
           \<and> (\<forall>i < length ?cols.
                case as_string (vals ! i) of
                  Some str \<Rightarrow> flds (?cols ! i) = None
                | None \<Rightarrow> flds (?cols ! i) = Some (vals ! i))
           \<and> dom flds \<subseteq> set ?cols)"
    proof (cases "ResultByRow q")
      case True
      then show ?thesis by (simp add: eq split: option.splits)
    next
      case False
      have "accRow ks1 ks2 q a row now =
             Returns (a @ [AddFields (spec_measurement ?cm) (spec_fields ?cm) (spec_tags ?cm) now]) None"
        using False by (simp add: eq)
      with flds df have "\<exists>flds.
           accRow ks1 ks2 q a row now =
             Returns (a @ [AddFields (spec_measurement ?cm) flds (spec_tags ?cm) now]) None
           \<and> (\<forall>i < length ?cols.
                case as_string (vals ! i) of
                  Some str \<Rightarrow> flds (?cols ! i) = None
                | None \<Rightarrow> flds (?cols ! i) = Some (vals ! i))
           \<and> dom flds \<subseteq> set ?cols"
        by blast
      with False show ?thesis by simp
    qed
  qed (rule tags, rule dt)
qed

theorem accRow_classifies_columns_witness:
  "accRow [''cpu_count'', ''measurement'', ''sql_instance'']
          [''sql_instance'', ''cpu_count'', ''measurement''] cpu_query [] cpu_row 7 =
     Returns [AddFields ''sqlserver_cpu'' [''cpu_count'' \<mapsto> VInt 8]
               [''sql_instance'' \<mapsto> ''db1''] 7] None
   \<and> (\<exists>measurement tgs.
     (if ResultByRow cpu_query then
        (case map_of (zip (OrderedColumns cpu_query) [VString ''sqlserver_cpu'', VString ''db1'', VInt 8]) ''value'' of
           None \<Rightarrow> accRow [''cpu_count'', ''measurement'', ''sql_instance'']
                     [''sql_instance'', ''cpu_count'', ''measurement''] cpu_query [] cpu_row 7 = Panics []
         | Some v \<Rightarrow>
             accRow [''cpu_count'', ''measurement'', ''sql_instance'']
                     [''sql_instance'', ''cpu_count'', ''measurement''] cpu_query [] cpu_row 7 =
               Returns ([] @ [AddFields measurement [''value'' \<mapsto> v] tgs 7]) None)
      else
        (\<exists>flds.
           accRow [''cpu_count'', ''measurement'', ''sql_instance'']
                     [''sql_instance'', ''cpu_count'', ''measurement''] cpu_query [] cpu_row 7 =
             Returns ([] @ [AddFields measurement flds tgs 7]) None
           \<and> (\<forall>i < length (OrderedColumns cpu_query).
                case as_string ([VString ''sqlserver_cpu'', VString ''db1'', VInt 8] ! i) of
                  Some str \<Rightarrow> flds (OrderedColumns cpu_query ! i) = None
                | None \<Rightarrow> flds (OrderedColumns cpu_query ! i) = Some ([VString ''sqlserver_cpu'', VString ''db1'', VInt 8] ! i))
           \<and> dom flds \<subseteq> set (OrderedColumns cpu_query)))
     \<and> (\<forall>i < length (OrderedColumns cpu_query).
          case as_string ([VString ''sqlserver_cpu'', VString ''db1'', VInt 8] ! i) of
            Some str \<Rightarrow>
              if OrderedColumns cpu_query ! i = ''measurement''
              then measurement = str \<and> tgs (OrderedColumns cpu_query ! i) = None
              else tgs (OrderedColumns cpu_query ! i) = Some str
          | None \<Rightarrow> tgs (OrderedColumns cpu_query ! i) = None)
     \<and> dom tgs \<subseteq> set (OrderedColumns cpu_query))"
proof -
  have ev: "accRow [''cpu_count'', ''measurement'', ''sql_instance'']
          [''sql_instance'', ''cpu_count'', ''measurement''] cpu_query [] cpu_row 7 =
     Returns [AddFields ''sqlserver_cpu'' [''cpu_count'' \<mapsto> VInt 8]
               [''sql_instance'' \<mapsto> ''db1''] 7] None"
    by (simp add: accRow_def cpu_query_def cpu_row_def entries_def as_string_def)
  have d: "distinct (OrderedColumns cpu_query)" by (simp add: cpu_query_def)
  have scan: "cpu_row (length (OrderedColumns cpu_query)) = Inr [VString ''sqlserver_cpu'', VString ''db1'', VInt 8]"
    by (simp add: cpu_query_def cpu_row_def)
  have len: "length [VString ''sqlserver_cpu'', VString ''db1'', VInt 8] = length (OrderedColumns cpu_query)"
    by (simp add: cpu_query_def)
  have k1: "distinct [''cpu_count'', ''measurement'', ''sql_instance'']"
    "set [''cpu_count'', ''measurement'', ''sql_instance''] = set (OrderedColumns cpu_query)"
    by (auto simp: cpu_query_def)
  have k2: "distinct [''sql_instance'', ''cpu_count'', ''measurement'']"
    "set [''sql_instance'', ''cpu_count'', ''measurement''] = set (OrderedColumns cpu_query)"
    by (auto simp: cpu_query_def)
  show ?thesis
    by (rule conjI [OF ev])
       (rule accRow_classifies_columns
        [where q=cpu_query and row=cpu_row
           and vals="[VString ''sqlserver_cpu'', VString ''db1'', VInt 8]",
         OF d scan len k1 k2])
qed

end
